theory Spec2Isabelle
  imports Main "HOL-Library.Word" "HOL-Library.Multiset"
begin

section \<open>Bytes and C strings\<close>

text \<open>
  The bridge moves raw bytes: \<^verbatim>\<open>char\<close> buffers on the stream side and
  \<^verbatim>\<open>std::vector<uint8_t>\<close> on the client side. Both are 8-bit words here.
\<close>

type_synonym uint8 = "8 word"

abbreviation NUL :: uint8 where "NUL \<equiv> 0"
abbreviation LF :: uint8 where "LF \<equiv> 10"
abbreviation CR :: uint8 where "CR \<equiv> 13"

text \<open>\<^verbatim>\<open>static const int BUF_SIZE = 256; static const int LINE_SIZE = 80;\<close>\<close>

abbreviation BUF_SIZE :: int where "BUF_SIZE \<equiv> 256"
abbreviation LINE_SIZE :: int where "LINE_SIZE \<equiv> 80"

text \<open>
  What a \<^verbatim>\<open>char *\<close> denotes as a string: the bytes in front of the first NUL.
  \<^verbatim>\<open>publish_state(line)\<close> builds its \<^verbatim>\<open>std::string\<close> from the pointer in this way.
\<close>

definition c_str :: "uint8 list \<Rightarrow> uint8 list" where
  "c_str mem = takeWhile (\<lambda>b. b \<noteq> NUL) mem"

section \<open>The line framer: \<^verbatim>\<open>StreamServerComponent::readline\<close>\<close>

text \<open>
  The two function-local statics of \<^verbatim>\<open>readline\<close>:
  \<^verbatim>\<open>static char line[LINE_SIZE]; static int pos = 0;\<close>
\<close>

record line_state =
  line :: "uint8 list"
  pos :: int

text \<open>Static storage is zero-initialised.\<close>

definition line_init :: line_state where
  "line_init = \<lparr>line = replicate (nat LINE_SIZE) NUL, pos = 0\<rparr>"

text \<open>
  \<^verbatim>\<open>char *readline(char *buf, int len)\<close>. The buffer is the list of the \<^verbatim>\<open>len\<close> bytes at
  \<^verbatim>\<open>buf\<close>; the loop \<^verbatim>\<open>while (len--)\<close> walks it front to back. The result is the returned
  pointer (\<open>None\<close> for \<^verbatim>\<open>NULL\<close>, otherwise the C string found at \<^verbatim>\<open>line\<close> at the moment of
  the return) together with the statics. On CR the function returns at once: the rest of
  the buffer is not looked at. Its one caller, \<^verbatim>\<open>read\<close>, passes a positive \<^verbatim>\<open>len\<close>.
\<close>

fun readline :: "line_state \<Rightarrow> uint8 list \<Rightarrow> uint8 list option \<times> line_state" where
  "readline st [] = (None, st)"
| "readline st (c # buf) =
     (if c = LF then readline st buf
      else if c = CR then
        (let st' = st\<lparr>line := (line st)[nat (pos st) := NUL], pos := 0\<rparr>
         in (Some (c_str (line st')), st'))
      else if pos st < LINE_SIZE - 1 then
        readline (st\<lparr>line := (line st)[nat (pos st) := c], pos := pos st + 1\<rparr>) buf
      else readline st buf)"

text \<open>
  The statics as the code keeps them: the array has its declared size and the cursor
  stays inside it, leaving room for the terminator.
\<close>

definition line_ok :: "line_state \<Rightarrow> bool" where
  "line_ok st = (length (line st) = nat LINE_SIZE \<and> 0 \<le> pos st \<and> pos st \<le> LINE_SIZE - 1)"

text \<open>The bytes accumulated for the line in progress.\<close>

definition pending :: "line_state \<Rightarrow> uint8 list" where
  "pending st = take (nat (pos st)) (line st)"

text \<open>
  Feeding a byte sequence one byte per call (\<^verbatim>\<open>readline(&b, 1)\<close> for each byte in turn):
  the value returned by every call, in call order.
\<close>

fun feed_each :: "line_state \<Rightarrow> uint8 list \<Rightarrow> uint8 list option list" where
  "feed_each st [] = []"
| "feed_each st (b # bs) = (case readline st [b] of (r, st') \<Rightarrow> r # feed_each st' bs)"

text \<open>The completed lines among the returned values (the non-\<^verbatim>\<open>NULL\<close> returns).\<close>

fun completed :: "'a option list \<Rightarrow> 'a list" where
  "completed [] = []"
| "completed (None # rs) = completed rs"
| "completed (Some l # rs) = l # completed rs"

text \<open>
  The reading of the specification's words, for comparison with the code: the
  CR-delimited segments of an input are the runs of bytes in front of each CR, in order;
  bytes after the last CR belong to no segment yet.
\<close>

function cr_segments :: "uint8 list \<Rightarrow> uint8 list list" where
  "cr_segments bs =
     (if CR \<in> set bs
      then takeWhile (\<lambda>b. b \<noteq> CR) bs # cr_segments (tl (dropWhile (\<lambda>b. b \<noteq> CR) bs))
      else [])"
  by pat_completeness auto
termination
proof (relation "measure length")
  show "wf (measure length)" by simp
next
  fix bs :: "uint8 list"
  assume "CR \<in> set bs"
  then have "dropWhile (\<lambda>b. b \<noteq> CR) bs \<noteq> []" by simp
  then have "length (tl (dropWhile (\<lambda>b. b \<noteq> CR) bs)) < length (dropWhile (\<lambda>b. b \<noteq> CR) bs)"
    by (cases "dropWhile (\<lambda>b. b \<noteq> CR) bs") simp_all
  also have "\<dots> \<le> length bs" by (rule length_dropWhile_le)
  finally show "(tl (dropWhile (\<lambda>b. b \<noteq> CR) bs), bs) \<in> measure length" by simp
qed

declare cr_segments.simps [simp del]

text \<open>What the specification expects of one segment: LF bytes removed, then cut to 79 bytes.\<close>

definition spec_line :: "uint8 list \<Rightarrow> uint8 list" where
  "spec_line seg = take (nat (LINE_SIZE - 1)) (filter (\<lambda>b. b \<noteq> LF) seg)"

text \<open>The state reached after feeding a byte sequence one byte per call.\<close>

fun feed_state :: "line_state \<Rightarrow> uint8 list \<Rightarrow> line_state" where
  "feed_state st [] = st"
| "feed_state st (b # bs) = feed_state (snd (readline st [b])) bs"

section \<open>Clients and the component state\<close>

text \<open>
  The calls the component makes on the \<^verbatim>\<open>AsyncClient\<close> objects of the network library,
  by the object they are made on: \<^verbatim>\<open>write(buf, len)\<close>, \<^verbatim>\<open>close(now)\<close> and
  \<^verbatim>\<open>delete\<close> (from \<^verbatim>\<open>~Client\<close>). The library is not part of the component; the model
  records the calls in the order they are made.
\<close>

datatype tcp_call = TcpWrite nat "uint8 list" | TcpClose nat bool | TcpDelete nat

text \<open>
  What the accept callback receives when the pointer is not null: the \<^verbatim>\<open>AsyncClient\<close>
  object (its address) and the text of \<^verbatim>\<open>remoteIP().toString()\<close>.
\<close>

record async_client =
  handle :: nat
  remote_ip :: string

text \<open>
  \<^verbatim>\<open>StreamServerComponent::Client\<close>. The field \<open>addr\<close> is the identity of the object, the
  \<^verbatim>\<open>this\<close> its callbacks capture. Addresses are handed out by a counter and never
  reused, so that an address names one client for good.
\<close>

record client =
  addr :: nat
  tcp_client :: nat
  "identifier" :: string
  disconnected :: bool

text \<open>
  The component with the collaborators it talks to: the registry
  (\<^verbatim>\<open>std::vector<std::unique_ptr<Client>> clients_\<close>, each entry owning its client), the
  shared receive buffer \<^verbatim>\<open>recv_buf_\<close>, the statics of \<^verbatim>\<open>readline\<close>, the stream
  (\<open>rx\<close>: bytes waiting to be read, \<open>tx\<close>: bytes written so far), the states published to
  \<^verbatim>\<open>readline_sensor\<close>, the calls made on client connections and the debug log.
\<close>

record server =
  clients :: "client list"
  next_addr :: nat
  recv_buf :: "uint8 list"
  framer :: line_state
  rx :: "uint8 list"
  tx :: "uint8 list"
  published :: "uint8 list list"
  tcp_log :: "tcp_call list"
  dbg_log :: "string list"

text \<open>
  The component when \<^verbatim>\<open>setup\<close> has run: no client yet, nothing buffered, the statics
  of \<^verbatim>\<open>readline\<close> as initialised, nothing waiting on the stream.
\<close>

definition server_init :: server where
  "server_init = \<lparr>clients = [], next_addr = 0, recv_buf = [], framer = line_init,
     rx = [], tx = [], published = [], tcp_log = [], dbg_log = []\<rparr>"

section \<open>Admission: the \<^verbatim>\<open>onClient\<close> callback of \<^verbatim>\<open>setup\<close> and the constructor\<close>

text \<open>
  \<^verbatim>\<open>Client::Client(AsyncClient *client, std::vector<uint8_t> &recv_buf)\<close>: the member
  initialisers. The constructor also logs the new client and registers the four callbacks
  modelled below.
\<close>

definition new_client :: "nat \<Rightarrow> async_client \<Rightarrow> client" where
  "new_client a ac =
     \<lparr>addr = a, tcp_client = handle ac, identifier = remote_ip ac, disconnected = False\<rparr>"

text \<open>
  \<^verbatim>\<open>[this](void *h, AsyncClient *tcpClient) { if (tcpClient == nullptr) return;
  this->clients_.push_back(std::unique_ptr<Client>(new Client(tcpClient, this->recv_buf_))); }\<close>
\<close>

definition on_client :: "async_client option \<Rightarrow> server \<Rightarrow> server" where
  "on_client tcpClient s =
     (case tcpClient of
        None \<Rightarrow> s
      | Some ac \<Rightarrow>
          s\<lparr>clients := clients s @ [new_client (next_addr s) ac],
            next_addr := Suc (next_addr s),
            dbg_log := dbg_log s @ [''New client connected from '' @ remote_ip ac]\<rparr>)"

section \<open>The callbacks of a client\<close>

text \<open>The client object at an address, if the registry holds one.\<close>

definition find_client :: "nat \<Rightarrow> server \<Rightarrow> client option" where
  "find_client a s = find (\<lambda>c. addr c = a) (clients s)"

text \<open>\<^verbatim>\<open>this->disconnected = true;\<close> on the client at address \<open>this\<close>.\<close>

definition set_disconnected :: "nat \<Rightarrow> server \<Rightarrow> server" where
  "set_disconnected this s =
     s\<lparr>clients := map (\<lambda>c. if addr c = this then c\<lparr>disconnected := True\<rparr> else c) (clients s)\<rparr>"

definition on_error :: "nat \<Rightarrow> server \<Rightarrow> server" where
  "on_error this s = set_disconnected this s"

definition on_disconnect :: "nat \<Rightarrow> server \<Rightarrow> server" where
  "on_disconnect this s = set_disconnected this s"

definition on_timeout :: "nat \<Rightarrow> server \<Rightarrow> server" where
  "on_timeout this s = set_disconnected this s"

text \<open>
  \<^verbatim>\<open>[&](void *h, AsyncClient *client, void *data, size_t len) { if (len == 0 || data ==
  nullptr) return; auto buf = static_cast<uint8_t *>(data);
  recv_buf.insert(recv_buf.end(), buf, buf + len); }\<close>
  The pointer \<open>data\<close> is \<open>None\<close> when null, otherwise the bytes it points to, of which the
  first \<open>len\<close> are copied.
\<close>

definition on_data :: "uint8 list option \<Rightarrow> nat \<Rightarrow> server \<Rightarrow> server" where
  "on_data data len s =
     (case data of
        None \<Rightarrow> s
      | Some buf \<Rightarrow> if len = 0 then s else s\<lparr>recv_buf := recv_buf s @ take len buf\<rparr>)"

section \<open>Cleanup\<close>

text \<open>
  \<^verbatim>\<open>std::partition\<close> is library code. The C++ standard asks only that the elements
  satisfying the predicate end up in front of the others, and says that relative order
  need not be kept. The definition below is the algorithm of libstdc++ (the library of the
  ESP toolchains) for bidirectional iterators: walk \<open>first\<close> forward over elements that
  satisfy \<open>p\<close>, walk \<open>last\<close> backward over elements that do not, swap the two elements the
  walks stop at, and go on inside. The result is the range in front of the returned
  iterator and the range from it on.
\<close>

text \<open>
  The backward walk of \<open>last\<close> over a range: the range splits into the part in front of the
  last element satisfying \<open>p\<close>, that element, and the elements behind it (none of which
  satisfies \<open>p\<close>); \<open>None\<close> when the walk meets \<open>first\<close>.
\<close>

definition back_scan :: "('a \<Rightarrow> bool) \<Rightarrow> 'a list \<Rightarrow> ('a list \<times> 'a \<times> 'a list) option" where
  "back_scan p xs =
     (case dropWhile (\<lambda>y. \<not> p y) (rev xs) of
        [] \<Rightarrow> None
      | y # m \<Rightarrow> Some (rev m, y, rev (takeWhile (\<lambda>y. \<not> p y) (rev xs))))"

function std_partition :: "('a \<Rightarrow> bool) \<Rightarrow> 'a list \<Rightarrow> 'a list \<times> 'a list" where
  "std_partition p [] = ([], [])"
| "std_partition p (x # xs) =
     (if p x then (case std_partition p xs of (f, b) \<Rightarrow> (x # f, b))
      else (case back_scan p xs of
              None \<Rightarrow> ([], x # xs)
            | Some (mid, y, ts) \<Rightarrow>
                (case std_partition p mid of (f, b) \<Rightarrow> (y # f, b @ x # ts))))"
  by pat_completeness auto
termination
proof (relation "measure (\<lambda>(p, xs). length xs)")
  show "wf (measure (\<lambda>(p :: 'a \<Rightarrow> bool, xs :: 'a list). length xs))" by simp
next
  fix p :: "'a \<Rightarrow> bool" and x :: 'a and xs :: "'a list"
  show "((p, xs), p, x # xs) \<in> measure (\<lambda>(p, xs). length xs)" by simp
next
  fix p :: "'a \<Rightarrow> bool" and x y :: 'a and xs mid ts :: "'a list" and r yts
  assume "back_scan p xs = Some r" and "(mid, yts) = r" and "(y, ts) = yts"
  then obtain m where m: "dropWhile (\<lambda>y. \<not> p y) (rev xs) = y # m" and mid: "mid = rev m"
    by (auto simp: back_scan_def split: list.splits)
  have "length (dropWhile (\<lambda>y. \<not> p y) (rev xs)) \<le> length (rev xs)"
    by (rule length_dropWhile_le)
  with m mid show "((p, mid), p, x # xs) \<in> measure (\<lambda>(p, xs). length xs)" by simp
qed

text \<open>
  \<^verbatim>\<open>StreamServerComponent::cleanup\<close>: partition by \<^verbatim>\<open>!client->disconnected\<close>, log every
  client behind the returned iterator, erase that range (which destroys the clients,
  and \<^verbatim>\<open>~Client\<close> deletes the connection).
\<close>

definition cleanup :: "server \<Rightarrow> server" where
  "cleanup s =
     (case std_partition (\<lambda>c. \<not> disconnected c) (clients s) of
        (live, dead) \<Rightarrow>
          s\<lparr>clients := live,
            dbg_log := dbg_log s @ map (\<lambda>c. ''Client '' @ identifier c @ '' disconnected'') dead,
            tcp_log := tcp_log s @ map (\<lambda>c. TcpDelete (tcp_client c)) dead\<rparr>)"

section \<open>The read phase\<close>

text \<open>
  \<^verbatim>\<open>stream_->available()\<close>: the number of bytes waiting. The model takes the bytes waiting
  at the start of the phase as given and lets none arrive while the phase runs.
\<close>

definition available :: "server \<Rightarrow> int" where
  "available s = int (length (rx s))"

text \<open>
  The body of the loop of \<^verbatim>\<open>StreamServerComponent::read\<close> once \<^verbatim>\<open>buf\<close> holds a chunk:
  one call of \<^verbatim>\<open>readline\<close> on the whole chunk, \<^verbatim>\<open>publish_state\<close> when the returned pointer
  is not null, then \<^verbatim>\<open>tcp_client->write(buf, len)\<close> for every client of the registry.
\<close>

definition read_chunk :: "server \<Rightarrow> uint8 list \<Rightarrow> server" where
  "read_chunk s buf =
     (case readline (framer s) buf of
        (ln, st) \<Rightarrow>
          s\<lparr>framer := st,
            published := (case ln of None \<Rightarrow> published s | Some l \<Rightarrow> published s @ [l]),
            tcp_log := tcp_log s @ map (\<lambda>c. TcpWrite (tcp_client c) buf) (clients s)\<rparr>)"

text \<open>
  One turn of the loop: \<^verbatim>\<open>len = std::min(len, (int)sizeof(buf))\<close>, then \<^verbatim>\<open>read_array(buf, len)\<close>
  (or \<^verbatim>\<open>readBytes\<close>, before 2021.10) moves the first \<^verbatim>\<open>len\<close> waiting bytes into \<^verbatim>\<open>buf\<close>.
\<close>

definition read_step :: "server \<Rightarrow> server" where
  "read_step s =
     (let len = min (available s) BUF_SIZE
      in read_chunk (s\<lparr>rx := drop (nat len) (rx s)\<rparr>) (take (nat len) (rx s)))"

text \<open>\<^verbatim>\<open>while ((len = this->stream_->available()) > 0) { ... }\<close>\<close>

function read :: "server \<Rightarrow> server" where
  "read s = (if available s > 0 then read (read_step s) else s)"
  by pat_completeness auto
termination
proof (relation "measure (\<lambda>s. length (rx s))")
  show "wf (measure (\<lambda>s. length (rx s)))" by simp
next
  fix s :: server
  assume a: "0 < available s"
  have "rx (read_step s) = drop (nat (min (available s) BUF_SIZE)) (rx s)"
    by (simp add: read_step_def read_chunk_def Let_def split: prod.splits)
  with a show "(read_step s, s) \<in> measure (\<lambda>s. length (rx s))"
    by (simp add: available_def)
qed

declare read.simps [simp del]

text \<open>The chunks a read phase takes from the waiting bytes: at most \<^verbatim>\<open>BUF_SIZE\<close> bytes each.\<close>

function chunks :: "uint8 list \<Rightarrow> uint8 list list" where
  "chunks bs =
     (if bs = [] then []
      else take (nat (min (int (length bs)) BUF_SIZE)) bs #
           chunks (drop (nat (min (int (length bs)) BUF_SIZE)) bs))"
  by pat_completeness auto
termination
  by (relation "measure length") (auto simp: min_def)

declare chunks.simps [simp del]

section \<open>The write phase\<close>

text \<open>
  \<^verbatim>\<open>StreamServerComponent::write\<close> has two bodies, chosen at compile time by
  \<^verbatim>\<open>ESPHOME_VERSION_CODE >= VERSION_CODE(2021, 10, 0)\<close>; the macro's value is a parameter.
\<close>

text \<open>
  Since 2021.10 the stream is an ESPHome UART device: \<^verbatim>\<open>write_array(recv_buf_)\<close> returns
  nothing and queues the whole vector.
\<close>

definition write_array :: "uint8 list \<Rightarrow> server \<Rightarrow> server" where
  "write_array data s = s\<lparr>tx := tx s @ data\<rparr>"

text \<open>
  Before 2021.10 the stream is an Arduino \<^verbatim>\<open>Stream\<close>: \<^verbatim>\<open>write(data, len)\<close> returns the number
  of bytes it took, which may be less than \<^verbatim>\<open>len\<close>. The stream is not part of the
  component, so how many bytes it takes of \<open>len\<close> offered is the parameter \<open>taken\<close>; the
  bytes taken are the first ones of the data.
\<close>

definition stream_write :: "(nat \<Rightarrow> nat) \<Rightarrow> uint8 list \<Rightarrow> server \<Rightarrow> server" where
  "stream_write taken data s = s\<lparr>tx := tx s @ take (min (taken (length data)) (length data)) data\<rparr>"

text \<open>
  The older body: \<^verbatim>\<open>while ((len = recv_buf_.size()) > 0) { stream_->write(recv_buf_.data(), len);
  recv_buf_.erase(recv_buf_.begin(), recv_buf_.begin() + len); }\<close>
  The value returned by \<^verbatim>\<open>write\<close> is dropped, and \<^verbatim>\<open>len\<close> bytes are erased whatever it was.
\<close>

function write_loop :: "(nat \<Rightarrow> nat) \<Rightarrow> server \<Rightarrow> server" where
  "write_loop taken s =
     (let len = length (recv_buf s)
      in if len > 0
         then write_loop taken
                ((stream_write taken (take len (recv_buf s)) s)\<lparr>recv_buf := drop len (recv_buf s)\<rparr>)
         else s)"
  by pat_completeness auto
termination
  by (relation "measure (\<lambda>(taken, s). length (recv_buf s))") (auto simp: stream_write_def)

declare write_loop.simps [simp del]

definition "write" :: "bool \<Rightarrow> (nat \<Rightarrow> nat) \<Rightarrow> server \<Rightarrow> server" where
  "write since_2021_10 taken s =
     (if since_2021_10 then (write_array (recv_buf s) s)\<lparr>recv_buf := []\<rparr>
      else write_loop taken s)"

section \<open>The tick, shutdown, and the events of a run\<close>

text \<open>\<^verbatim>\<open>void StreamServerComponent::loop() { this->cleanup(); this->read(); this->write(); }\<close>\<close>

definition loop :: "bool \<Rightarrow> (nat \<Rightarrow> nat) \<Rightarrow> server \<Rightarrow> server" where
  "loop since_2021_10 taken s = write since_2021_10 taken (read (cleanup s))"

text \<open>
  \<^verbatim>\<open>on_shutdown\<close>: \<^verbatim>\<open>for (auto &client : this->clients_) client->tcp_client->close(true);\<close>
  Callbacks that the library raises for a closed connection are events of their own.
\<close>

definition on_shutdown :: "server \<Rightarrow> server" where
  "on_shutdown s = s\<lparr>tcp_log := tcp_log s @ map (\<lambda>c. TcpClose (tcp_client c) True) (clients s)\<rparr>"

text \<open>
  Everything that acts on the component: the accept callback, the four callbacks of a
  client (named by the client's address; a destroyed client has none, its connection
  being deleted with it), the tick and the shutdown hook.
\<close>

datatype event =
    OnClient "async_client option"
  | OnData nat "uint8 list option" nat
  | OnError nat
  | OnDisconnect nat
  | OnTimeout nat
  | Loop
  | Shutdown

fun step :: "bool \<Rightarrow> (nat \<Rightarrow> nat) \<Rightarrow> event \<Rightarrow> server \<Rightarrow> server" where
  "step v w (OnClient tcpClient) s = on_client tcpClient s"
| "step v w (OnData this data len) s = (if find_client this s = None then s else on_data data len s)"
| "step v w (OnError this) s = on_error this s"
| "step v w (OnDisconnect this) s = on_disconnect this s"
| "step v w (OnTimeout this) s = on_timeout this s"
| "step v w Loop s = loop v w s"
| "step v w Shutdown s = on_shutdown s"

text \<open>A run: the events in the order they happen.\<close>

fun run :: "bool \<Rightarrow> (nat \<Rightarrow> nat) \<Rightarrow> event list \<Rightarrow> server \<Rightarrow> server" where
  "run v w [] s = s"
| "run v w (e # es) s = run v w es (step v w e s)"

text \<open>
  The registry as admission builds it: no two clients share an address, and every
  address in use lies below the counter.
\<close>

definition registry_ok :: "server \<Rightarrow> bool" where
  "registry_ok s =
     (distinct (map addr (clients s)) \<and> list_all (\<lambda>c. addr c < next_addr s) (clients s))"

text \<open>The writes among a sequence of calls on connections.\<close>

definition tcp_writes :: "tcp_call list \<Rightarrow> (nat \<times> uint8 list) list" where
  "tcp_writes calls = concat (map (\<lambda>a. case a of TcpWrite h b \<Rightarrow> [(h, b)] | _ \<Rightarrow> []) calls)"

text \<open>What one chunk's broadcast over a registry writes: the chunk to each client, in registry order.\<close>

definition broadcast :: "client list \<Rightarrow> uint8 list \<Rightarrow> (nat \<times> uint8 list) list" where
  "broadcast cs chunk = map (\<lambda>c. (tcp_client c, chunk)) cs"

text \<open>The front of a chunk up to and including its first CR: what \<^verbatim>\<open>readline\<close> gets to see of it.\<close>

definition upto_cr :: "uint8 list \<Rightarrow> uint8 list" where
  "upto_cr buf = takeWhile (\<lambda>b. b \<noteq> CR) buf @ [CR]"

text \<open>A client is dead or gone: the registry holds no client at the address, or a disconnected one.\<close>

definition dead_or_gone :: "nat \<Rightarrow> server \<Rightarrow> bool" where
  "dead_or_gone a s = (case find_client a s of None \<Rightarrow> True | Some c \<Rightarrow> disconnected c)"

section \<open>Concrete inputs\<close>

text \<open>A connection and registry entries to evaluate the definitions on.\<close>

definition example_peer :: async_client where
  "example_peer = \<lparr>handle = 100, remote_ip = ''10.0.0.7''\<rparr>"

definition example_client :: "nat \<Rightarrow> bool \<Rightarrow> client" where
  "example_client n d =
     \<lparr>addr = n, tcp_client = 100 + n, identifier = ''10.0.0.7'', disconnected = d\<rparr>"

section \<open>The line framer, one byte per call\<close>

lemma readline_no_cr:
  "CR \<notin> set bs \<Longrightarrow> line_ok st \<Longrightarrow>
   fst (readline st bs) = None \<and> line_ok (snd (readline st bs)) \<and>
   pending (snd (readline st bs)) = take 79 (pending st @ filter (\<lambda>b. b \<noteq> LF) bs)"
proof (induction bs arbitrary: st)
  case Nil
  then show ?case by (auto simp: line_ok_def pending_def)
next
  case (Cons c bs)
  show ?case
  proof (cases "c = LF")
    case True
    with Cons show ?thesis by simp
  next
    case False
    note nlf = this
    from Cons.prems have ncr: "c \<noteq> CR" and nin: "CR \<notin> set bs" by auto
    show ?thesis
    proof (cases "pos st < 79")
      case True
      let ?st = "st\<lparr>line := (line st)[nat (pos st) := c], pos := pos st + 1\<rparr>"
      have ok: "line_ok ?st" using Cons.prems True by (auto simp: line_ok_def)
      have pend: "pending ?st = pending st @ [c]"
        using Cons.prems True
        by (auto simp: pending_def line_ok_def nat_add_distrib take_Suc_conv_app_nth)
      from Cons.IH[OF nin ok] pend nlf ncr True show ?thesis by simp
    next
      case False
      with Cons.prems have p: "pos st = 79" by (auto simp: line_ok_def)
      then have "length (pending st) = 79" using Cons.prems by (auto simp: pending_def line_ok_def)
      with Cons.IH[OF nin Cons.prems(2)] nlf ncr False show ?thesis by simp
    qed
  qed
qed

lemma takeWhile_stop: "\<not> P y \<Longrightarrow> takeWhile P (xs @ y # ys) = takeWhile P xs"
  by (induction xs) auto

lemma c_str_terminated:
  "n < length mem \<Longrightarrow> c_str (mem[n := NUL]) = c_str (take n mem)"
  by (simp add: c_str_def upd_conv_take_nth_drop takeWhile_stop)

lemma c_str_no_nul: "NUL \<notin> set xs \<Longrightarrow> c_str xs = xs"
  by (auto simp: c_str_def)

lemma readline_cr:
  "line_ok st \<Longrightarrow>
   \<exists>st'. readline st [CR] = (Some (c_str (pending st)), st') \<and> line_ok st' \<and> pos st' = 0"
  by (auto simp: line_ok_def pending_def Let_def c_str_terminated)

lemma feed_each_append:
  "feed_each st (xs @ ys) = feed_each st xs @ feed_each (feed_state st xs) ys"
  by (induction xs arbitrary: st) (auto split: prod.splits)

lemma feed_state_no_cr:
  "CR \<notin> set bs \<Longrightarrow> feed_state st bs = snd (readline st bs)"
proof (induction bs arbitrary: st)
  case Nil
  then show ?case by simp
next
  case (Cons b bs)
  then have "b \<noteq> CR" "CR \<notin> set bs" by auto
  then show ?case using Cons.IH by simp
qed

lemma feed_each_is_none: "map (\<lambda>r. r = None) (feed_each st bs) = map (\<lambda>b. b \<noteq> CR) bs"
  by (induction bs arbitrary: st) (auto simp: Let_def split: prod.splits if_splits)

lemma feed_each_no_cr: "CR \<notin> set bs \<Longrightarrow> completed (feed_each st bs) = []"
  by (induction bs arbitrary: st) (auto simp: Let_def split: prod.splits if_splits)

lemma completed_append: "completed (xs @ ys) = completed xs @ completed ys"
  by (induction xs rule: completed.induct) auto

lemma cr_segments_none: "CR \<notin> set bs \<Longrightarrow> cr_segments bs = []"
  by (simp add: cr_segments.simps)

lemma split_at_cr:
  "CR \<in> set bs \<Longrightarrow> bs = takeWhile (\<lambda>b. b \<noteq> CR) bs @ CR # tl (dropWhile (\<lambda>b. b \<noteq> CR) bs)"
  by (induction bs) auto

text \<open>
  From any state with an empty accumulator, the lines completed by feeding \<open>bs\<close> byte by
  byte are the specification's lines of the CR-delimited segments, each read back as a
  C string.
\<close>

lemma feed_lines_general:
  "line_ok st \<Longrightarrow> pos st = 0 \<Longrightarrow>
   completed (feed_each st bs) = map (\<lambda>seg. c_str (spec_line seg)) (cr_segments bs)"
proof (induction bs arbitrary: st rule: cr_segments.induct)
  case (1 bs)
  show ?case
  proof (cases "CR \<in> set bs")
    case False
    then show ?thesis by (simp add: feed_each_no_cr cr_segments_none)
  next
    case True
    define pre where "pre = takeWhile (\<lambda>b. b \<noteq> CR) bs"
    define post where "post = tl (dropWhile (\<lambda>b. b \<noteq> CR) bs)"
    have bs: "bs = pre @ CR # post" unfolding pre_def post_def using True by (rule split_at_cr)
    have npre: "CR \<notin> set pre" unfolding pre_def by (auto dest: set_takeWhileD)
    define st1 where "st1 = feed_state st pre"
    have st1: "st1 = snd (readline st pre)" unfolding st1_def using npre by (rule feed_state_no_cr)
    have ok1: "line_ok st1" and pend1: "pending st1 = spec_line pre"
      using readline_no_cr[OF npre "1.prems"(1)] "1.prems"(2)
      by (simp_all add: st1 pending_def spec_line_def)
    from readline_cr[OF ok1] pend1 obtain st2
      where r: "readline st1 [CR] = (Some (c_str (spec_line pre)), st2)"
        and ok2: "line_ok st2" and pos2: "pos st2 = 0"
      by auto
    have "completed (feed_each st bs) =
          completed (feed_each st pre) @ completed (feed_each st1 (CR # post))"
      by (subst bs) (simp add: feed_each_append completed_append st1_def)
    also have "\<dots> = c_str (spec_line pre) # completed (feed_each st2 post)"
      using npre r by (simp add: feed_each_no_cr del: readline.simps)
    also have "completed (feed_each st2 post) = map (\<lambda>seg. c_str (spec_line seg)) (cr_segments post)"
      unfolding post_def using True ok2 pos2 by (rule "1.IH")
    also have "c_str (spec_line pre) # map (\<lambda>seg. c_str (spec_line seg)) (cr_segments post)
               = map (\<lambda>seg. c_str (spec_line seg)) (cr_segments bs)"
      using True by (subst (2) cr_segments.simps) (simp add: pre_def post_def)
    finally show ?thesis .
  qed
qed

lemma line_init_ok: "line_ok line_init \<and> pos line_init = 0"
  by (simp add: line_ok_def line_init_def)

lemma cr_segments_subset: "set (concat (cr_segments bs)) \<subseteq> set bs"
proof (induction bs rule: cr_segments.induct)
  case (1 bs)
  show ?case
  proof (cases "CR \<in> set bs")
    case False
    then show ?thesis by (simp add: cr_segments_none)
  next
    case True
    have a: "set (takeWhile (\<lambda>b. b \<noteq> CR) bs) \<subseteq> set bs"
      by (auto dest: set_takeWhileD)
    have b: "set (tl (dropWhile (\<lambda>b. b \<noteq> CR) bs)) \<subseteq> set bs"
      by (metis list.set_sel(2) set_dropWhileD subsetI tl_Nil)
    from "1.IH"[OF True] a b True show ?thesis
      by (subst cr_segments.simps) auto
  qed
qed

lemma spec_line_subset: "set (spec_line seg) \<subseteq> set seg"
  by (auto simp: spec_line_def dest: in_set_takeD)

text \<open>
  On input without NUL bytes the returned lines are exactly the specification's lines
  of the segments.
\<close>

lemma feed_lines_no_nul:
  assumes "NUL \<notin> set bs"
  shows "completed (feed_each line_init bs) = map spec_line (cr_segments bs)"
proof -
  have "c_str (spec_line seg) = spec_line seg" if "seg \<in> set (cr_segments bs)" for seg
  proof -
    from that have "set seg \<subseteq> set bs" using cr_segments_subset[of bs] by auto
    with assms spec_line_subset[of seg] have "NUL \<notin> set (spec_line seg)" by auto
    then show ?thesis by (rule c_str_no_nul)
  qed
  then have "map (\<lambda>seg. c_str (spec_line seg)) (cr_segments bs) = map spec_line (cr_segments bs)"
    by simp
  with feed_lines_general[of line_init bs] line_init_ok show ?thesis by simp
qed

text \<open>
  C1, as the claim states it, fails: the bytes \<open>a NUL b CR\<close>, fed one per call, give the
  single segment \<open>a NUL b\<close>, but the completed line is handed back as a pointer to a
  NUL-terminated string, which reads \<open>a\<close>.
\<close>

theorem C1_nul_byte_counterexample:
  "completed (feed_each line_init [97, NUL, 98, CR]) \<noteq> map spec_line (cr_segments [97, NUL, 98, CR])"
proof -
  have "completed (feed_each line_init [97, NUL, 98, CR]) = [[97]]"
    by code_simp
  moreover have "map spec_line (cr_segments [97, NUL, 98, CR]) = [[97, NUL, 98]]"
    by (simp add: cr_segments.simps spec_line_def)
  ultimately show ?thesis by simp
qed

text \<open>
  C1, amended: for every byte sequence fed to the line framer one byte per call, starting
  from the initial statics, the completed lines returned over all calls are the
  CR-delimited segments of the input with all LF bytes removed, each cut to its first 79
  bytes and then read as a C string (cut in front of its first NUL byte, if it has one);
  and a call returns a line exactly when its byte is CR, so a call whose byte completes no
  line returns none.
\<close>

theorem C1_feed_each_lines:
  "completed (feed_each line_init bs) = map (\<lambda>seg. c_str (spec_line seg)) (cr_segments bs) \<and>
   map (\<lambda>r. r = None) (feed_each line_init bs) = map (\<lambda>b. b \<noteq> CR) bs"
  using feed_lines_general[of line_init bs] line_init_ok feed_each_is_none[of line_init bs]
  by simp

section \<open>Cleanup\<close>

lemma back_scan_Some:
  "back_scan p xs = Some (mid, y, ts) \<Longrightarrow> xs = mid @ y # ts \<and> p y \<and> (\<forall>t \<in> set ts. \<not> p t)"
proof -
  assume a: "back_scan p xs = Some (mid, y, ts)"
  let ?q = "\<lambda>y. \<not> p y"
  from a obtain m where m: "dropWhile ?q (rev xs) = y # m" and mid: "mid = rev m"
    and ts: "ts = rev (takeWhile ?q (rev xs))"
    by (auto simp: back_scan_def split: list.splits)
  have "rev xs = takeWhile ?q (rev xs) @ dropWhile ?q (rev xs)" by simp
  then have "rev xs = rev ts @ y # rev mid" using m mid ts by simp
  then have "rev (rev xs) = rev (rev ts @ y # rev mid)" by (rule arg_cong)
  then have xs: "xs = mid @ y # ts" by simp
  have py: "p y" using m by (metis hd_dropWhile list.sel(1) list.distinct(1))
  have "\<forall>t \<in> set ts. \<not> p t" unfolding ts by (auto dest: set_takeWhileD)
  with xs py show ?thesis by simp
qed

lemma back_scan_None: "back_scan p xs = None \<Longrightarrow> \<forall>x \<in> set xs. \<not> p x"
proof -
  assume "back_scan p xs = None"
  then have "dropWhile (\<lambda>y. \<not> p y) (rev xs) = []"
    by (auto simp: back_scan_def split: list.splits)
  then have "\<forall>x \<in> set (rev xs). \<not> p x" by (simp only: dropWhile_eq_Nil_conv)
  then show ?thesis by simp
qed

text \<open>
  What the C++ standard promises of \<^verbatim>\<open>std::partition\<close>, for the algorithm above: the two
  ranges together are a permutation of the input, the front range satisfies the
  predicate throughout and the back range nowhere.
\<close>

lemma std_partition_props:
  "std_partition p xs = (f, b) \<Longrightarrow>
   mset f + mset b = mset xs \<and> (\<forall>x \<in> set f. p x) \<and> (\<forall>x \<in> set b. \<not> p x)"
proof (induction p xs arbitrary: f b rule: std_partition.induct)
  case (1 p)
  then show ?case by simp
next
  case (2 p x xs)
  show ?case
  proof (cases "p x")
    case True
    obtain f' b' where r: "std_partition p xs = (f', b')" by (cases "std_partition p xs")
    from "2.prems" True r have fb: "f = x # f'" "b = b'" by auto
    from "2.IH"(1)[OF True r] fb True show ?thesis by auto
  next
    case False
    show ?thesis
    proof (cases "back_scan p xs")
      case None
      with "2.prems" False have fb: "f = []" "b = x # xs" by auto
      from back_scan_None[OF None] False fb show ?thesis by auto
    next
      case (Some r)
      obtain mid y ts where r: "r = (mid, y, ts)" by (cases r)
      obtain f' b' where sp: "std_partition p mid = (f', b')" by (cases "std_partition p mid")
      from "2.prems" False Some r sp have fb: "f = y # f'" "b = b' @ x # ts" by auto
      from back_scan_Some[of p xs mid y ts] Some r
      have xs: "xs = mid @ y # ts" and py: "p y" and nts: "\<forall>t \<in> set ts. \<not> p t" by auto
      have ih: "mset f' + mset b' = mset mid \<and> (\<forall>x \<in> set f'. p x) \<and> (\<forall>x \<in> set b'. \<not> p x)"
        using "2.IH"(2)[OF False Some _ _ sp] r by simp
      have "mset f + mset b = mset xs + {#x#}"
        using ih by (simp add: fb xs ac_simps)
      with ih py nts False fb show ?thesis by auto
    qed
  qed
qed

lemma std_partition_live:
  "std_partition p xs = (f, b) \<Longrightarrow> mset f = mset (filter p xs)"
proof -
  assume a: "std_partition p xs = (f, b)"
  note pr = std_partition_props[OF a]
  have "mset (filter p xs) = filter_mset p (mset xs)" by simp
  also have "\<dots> = filter_mset p (mset f + mset b)" using pr by simp
  also have "\<dots> = filter_mset p (mset f) + filter_mset p (mset b)" by simp
  also have "filter_mset p (mset f) = mset f" using pr by (simp add: filter_mset_eq_conv)
  also have "filter_mset p (mset b) = {#}" using pr by simp
  finally show ?thesis by simp
qed

lemma cleanup_clients:
  "mset (clients (cleanup s)) = mset (filter (\<lambda>c. \<not> disconnected c) (clients s))"
proof -
  obtain f b where r: "std_partition (\<lambda>c. \<not> disconnected c) (clients s) = (f, b)"
    by (cases "std_partition (\<lambda>c. \<not> disconnected c) (clients s)")
  then have "clients (cleanup s) = f" by (simp add: cleanup_def)
  with std_partition_live[OF r] show ?thesis by simp
qed

lemma cleanup_registry:
  "\<exists>dead. mset (clients (cleanup s)) + mset dead = mset (clients s) \<and>
          (\<forall>c \<in> set (clients (cleanup s)). \<not> disconnected c)"
proof -
  obtain f b where r: "std_partition (\<lambda>c. \<not> disconnected c) (clients s) = (f, b)"
    by (cases "std_partition (\<lambda>c. \<not> disconnected c) (clients s)")
  then have "clients (cleanup s) = f" by (simp add: cleanup_def)
  with std_partition_props[OF r] show ?thesis by auto
qed

text \<open>
  C2, as the claim states it, fails: with a dead client in front of two live ones, the
  partition swaps the dead client with the last live one, and the registry after
  \<open>cleanup\<close> holds the two live clients in reverse order.
\<close>

theorem C2_order_counterexample:
  "clients (cleanup (server_init\<lparr>clients :=
      [example_client 0 True, example_client 1 False, example_client 2 False]\<rparr>))
   \<noteq> filter (\<lambda>c. \<not> disconnected c)
      [example_client 0 True, example_client 1 False, example_client 2 False]"
proof -
  have "clients (cleanup (server_init\<lparr>clients :=
      [example_client 0 True, example_client 1 False, example_client 2 False]\<rparr>))
      = [example_client 2 False, example_client 1 False]"
    by (simp add: cleanup_def server_init_def example_client_def back_scan_def)
  moreover have "filter (\<lambda>c. \<not> disconnected c)
      [example_client 0 True, example_client 1 False, example_client 2 False]
      = [example_client 1 False, example_client 2 False]"
    by (simp add: example_client_def)
  moreover have "example_client 2 False \<noteq> example_client 1 False"
    by (simp add: example_client_def)
  ultimately show ?thesis by simp
qed

text \<open>
  C2, amended: for every registry state, after \<open>cleanup\<close> the registry contains exactly
  the clients whose disconnected flag was false at call time, each once and each
  unchanged (so no live client's flag is changed by the call); the order in which they
  stand is whatever \<^verbatim>\<open>std::partition\<close> leaves.
\<close>

theorem C2_cleanup_keeps_live_clients:
  "mset (clients (cleanup s)) = mset (filter (\<lambda>c. \<not> disconnected c) (clients s))"
  by (rule cleanup_clients)

section \<open>The read phase\<close>

lemma readline_stops_at_cr:
  "readline st (pre @ CR # post) = readline st (pre @ [CR])"
  by (induction pre arbitrary: st) (simp_all add: Let_def)

lemma readline_upto_cr: "CR \<in> set buf \<Longrightarrow> readline st buf = readline st (upto_cr buf)"
proof -
  assume a: "CR \<in> set buf"
  have "readline st (takeWhile (\<lambda>b. b \<noteq> CR) buf @ CR # tl (dropWhile (\<lambda>b. b \<noteq> CR) buf))
        = readline st (upto_cr buf)"
    unfolding upto_cr_def by (rule readline_stops_at_cr)
  with split_at_cr[OF a] show ?thesis by simp
qed

lemma read_chunk_rx: "read_chunk (s\<lparr>rx := r\<rparr>) buf = (read_chunk s buf)\<lparr>rx := r\<rparr>"
  by (simp add: read_chunk_def split: prod.splits option.splits)

lemma fold_read_chunk_rx:
  "fold (\<lambda>b t. read_chunk t b) cs (s\<lparr>rx := r\<rparr>) = (fold (\<lambda>b t. read_chunk t b) cs s)\<lparr>rx := r\<rparr>"
  by (induction cs arbitrary: s) (simp_all add: read_chunk_rx)

text \<open>
  The read phase runs the loop body once on each chunk of the waiting bytes, in order,
  and leaves no byte waiting.
\<close>

lemma read_as_fold:
  "read s = (fold (\<lambda>b t. read_chunk t b) (chunks (rx s)) s)\<lparr>rx := []\<rparr>"
proof (induction s rule: read.induct)
  case (1 s)
  show ?case
  proof (cases "rx s = []")
    case True
    then have "read s = s" by (subst read.simps) (simp add: available_def)
    moreover have "chunks (rx s) = []" using True by (subst chunks.simps) simp
    ultimately show ?thesis using True by simp
  next
    case False
    define n where "n = nat (min (int (length (rx s))) BUF_SIZE)"
    have av: "0 < available s" using False by (simp add: available_def)
    have step: "read_step s = (read_chunk s (take n (rx s)))\<lparr>rx := drop n (rx s)\<rparr>"
      by (simp add: read_step_def available_def n_def read_chunk_rx Let_def)
    have ch: "chunks (rx s) = take n (rx s) # chunks (drop n (rx s))"
      using False by (subst chunks.simps) (simp add: n_def)
    have "read s = read (read_step s)" using av by (subst read.simps) simp
    also have "\<dots> = (fold (\<lambda>b t. read_chunk t b) (chunks (rx (read_step s))) (read_step s))\<lparr>rx := []\<rparr>"
      using av by (rule "1.IH")
    also have "\<dots> = (fold (\<lambda>b t. read_chunk t b) (chunks (rx s)) s)\<lparr>rx := []\<rparr>"
      by (simp add: step ch fold_read_chunk_rx)
    finally show ?thesis .
  qed
qed

lemma fold_read_chunk_tcp_log:
  "tcp_log (fold (\<lambda>b t. read_chunk t b) cs s) =
   tcp_log s @ concat (map (\<lambda>chunk. map (\<lambda>c. TcpWrite (tcp_client c) chunk) (clients s)) cs)"
proof (induction cs arbitrary: s)
  case Nil
  then show ?case by simp
next
  case (Cons b cs)
  have "clients (read_chunk s b) = clients s"
    and "tcp_log (read_chunk s b) = tcp_log s @ map (\<lambda>c. TcpWrite (tcp_client c) b) (clients s)"
    by (simp_all add: read_chunk_def split: prod.splits)
  with Cons.IH[of "read_chunk s b"] show ?case by simp
qed

lemma read_tcp_log:
  "tcp_log (read s) =
   tcp_log s @ concat (map (\<lambda>chunk. map (\<lambda>c. TcpWrite (tcp_client c) chunk) (clients s)) (chunks (rx s)))"
  by (simp add: read_as_fold fold_read_chunk_tcp_log)

lemma read_frame: "clients (read s) = clients s \<and> next_addr (read s) = next_addr s"
proof -
  have "clients (fold (\<lambda>b t. read_chunk t b) cs s) = clients s \<and>
        next_addr (fold (\<lambda>b t. read_chunk t b) cs s) = next_addr s" for cs
    by (induction cs arbitrary: s) (simp_all add: read_chunk_def split: prod.splits)
  then show ?thesis by (simp add: read_as_fold)
qed

text \<open>One call of \<open>readline\<close> per chunk: a chunk adds at most one published line.\<close>

lemma read_chunk_one_line: "length (published (read_chunk s buf)) \<le> Suc (length (published s))"
  by (simp add: read_chunk_def split: prod.splits option.splits)

text \<open>
  C3 (the code departs from the claim): the stream holds the four bytes \<open>a CR b CR\<close>,
  which the read phase takes as one chunk with two terminators. Fed byte by byte the
  framer completes \<open>a\<close> and \<open>b\<close>; the read phase publishes \<open>a\<close> only and leaves the
  accumulator empty, \<open>b\<close> never having been fed.
\<close>

theorem C3_second_line_lost:
  "chunks [97, CR, 98, CR] = [[97, CR, 98, CR]] \<and>
   completed (feed_each line_init [97, CR, 98, CR]) = [[97], [98]] \<and>
   published (read (server_init\<lparr>rx := [97, CR, 98, CR]\<rparr>)) = [[97]] \<and>
   pending (framer (read (server_init\<lparr>rx := [97, CR, 98, CR]\<rparr>))) = []"
  by code_simp

text \<open>
  C9: in the read phase, for every chunk that contains at least one CR, the bytes after
  the first CR are never entered into the line accumulator nor returned as part of a
  completed line: the statics and the published lines after the chunk are those after
  the chunk cut off behind its first CR. The whole chunk is still written to every client
  of the registry.
\<close>

theorem C9_bytes_after_cr_skipped:
  "CR \<in> set buf \<Longrightarrow>
   framer (read_chunk s buf) = framer (read_chunk s (upto_cr buf)) \<and>
   published (read_chunk s buf) = published (read_chunk s (upto_cr buf)) \<and>
   tcp_log (read_chunk s buf) = tcp_log s @ map (\<lambda>c. TcpWrite (tcp_client c) buf) (clients s)"
  by (simp add: read_chunk_def readline_upto_cr[of buf "framer s"] split: prod.splits)

theorem C9_bytes_after_cr_skipped_witness:
  "CR \<in> set [97, CR, 98, CR :: uint8] \<and>
   framer (read_chunk (server_init\<lparr>clients := [example_client 0 False]\<rparr>) [97, CR, 98, CR]) =
     framer (read_chunk (server_init\<lparr>clients := [example_client 0 False]\<rparr>) [97, CR]) \<and>
   published (read_chunk (server_init\<lparr>clients := [example_client 0 False]\<rparr>) [97, CR, 98, CR]) =
     published (read_chunk (server_init\<lparr>clients := [example_client 0 False]\<rparr>) [97, CR]) \<and>
   tcp_log (read_chunk (server_init\<lparr>clients := [example_client 0 False]\<rparr>) [97, CR, 98, CR]) =
     [TcpWrite 100 [97, CR, 98, CR]]"
  using C9_bytes_after_cr_skipped[of "[97, CR, 98, CR]" "server_init\<lparr>clients := [example_client 0 False]\<rparr>"]
  by (simp add: upto_cr_def server_init_def example_client_def)

section \<open>The write phase\<close>

text \<open>
  The older body runs its loop at most once: the first turn offers the whole buffer,
  the stream takes what it takes, and the whole buffer is erased.
\<close>

lemma write_loop_once:
  "write_loop w s =
     (if recv_buf s = [] then s
      else s\<lparr>tx := tx s @ take (w (length (recv_buf s))) (recv_buf s), recv_buf := []\<rparr>)"
proof (cases "recv_buf s = []")
  case True
  then show ?thesis by (subst write_loop.simps) simp
next
  case False
  let ?s = "(stream_write w (recv_buf s) s)\<lparr>recv_buf := []\<rparr>"
  have "write_loop w s = write_loop w ?s"
    using False by (subst write_loop.simps) (simp add: Let_def)
  also have "\<dots> = ?s" by (subst write_loop.simps) simp
  finally show ?thesis using False by (simp add: stream_write_def min_def)
qed

lemma write_tcp_log: "tcp_log (write v w s) = tcp_log s"
  by (simp add: write_def write_array_def write_loop_once)

lemma write_frame: "clients (write v w s) = clients s \<and> next_addr (write v w s) = next_addr s"
  by (simp add: write_def write_array_def write_loop_once)

text \<open>Either body leaves the shared receive buffer empty.\<close>

lemma write_empties_buffer: "recv_buf (write v w s) = []"
  by (simp add: write_def write_array_def write_loop_once)

text \<open>
  The body compiled since 2021.10 hands the stream exactly the bytes of the buffer, once
  and in buffer order.
\<close>

lemma write_array_drains: "tx (write True w s) = tx s @ recv_buf s"
  by (simp add: write_def write_array_def)

text \<open>The older body does so when the stream takes everything it is offered.\<close>

lemma write_loop_drains:
  assumes "length (recv_buf s) \<le> w (length (recv_buf s))"
  shows "tx (write False w s) = tx s @ recv_buf s"
  using assms by (simp add: write_def write_loop_once)

text \<open>
  C4 (the code departs from the claim): built before 2021.10, with the six bytes
  \<open>1 2 3 4 5 6\<close> in the shared receive buffer and a stream that takes four bytes of a
  write. The loop offers all six, drops the returned count and erases all six: the stream
  has been handed \<open>1 2 3 4\<close> only, the buffer is empty, and \<open>5 6\<close> are written nowhere.
\<close>

theorem C4_partial_write_loses_bytes:
  "tx (write False (\<lambda>len. 4) (server_init\<lparr>recv_buf := [1, 2, 3, 4, 5, 6]\<rparr>)) = [1, 2, 3, 4] \<and>
   recv_buf (write False (\<lambda>len. 4) (server_init\<lparr>recv_buf := [1, 2, 3, 4, 5, 6]\<rparr>)) = [] \<and>
   tx (server_init\<lparr>recv_buf := [1, 2, 3, 4, 5, 6]\<rparr>) @
     recv_buf (server_init\<lparr>recv_buf := [1, 2, 3, 4, 5, 6]\<rparr>) = [1, 2, 3, 4, 5, 6]"
  by (simp add: write_def write_loop_once server_init_def)

section \<open>The tick\<close>

lemma tcp_writes_append: "tcp_writes (xs @ ys) = tcp_writes xs @ tcp_writes ys"
  by (simp add: tcp_writes_def)

lemma tcp_writes_broadcast:
  "tcp_writes (map (\<lambda>c. TcpWrite (tcp_client c) chunk) cs) = broadcast cs chunk"
  by (induction cs) (simp_all add: tcp_writes_def broadcast_def)

lemma tcp_writes_broadcasts:
  "tcp_writes (concat (map (\<lambda>chunk. map (\<lambda>c. TcpWrite (tcp_client c) chunk) cs) chs)) =
   concat (map (broadcast cs) chs)"
proof (induction chs)
  case Nil
  then show ?case by (simp add: tcp_writes_def)
next
  case (Cons ch chs)
  then show ?case by (simp add: tcp_writes_append tcp_writes_broadcast)
qed

lemma tcp_writes_deletes: "tcp_writes (map (\<lambda>c. TcpDelete (f c)) cs) = []"
  by (induction cs) (simp_all add: tcp_writes_def)

lemma cleanup_other:
  "rx (cleanup s) = rx s \<and> tcp_writes (tcp_log (cleanup s)) = tcp_writes (tcp_log s)"
  by (simp add: cleanup_def tcp_writes_append tcp_writes_deletes split: prod.splits)

lemma loop_writes:
  "tcp_writes (tcp_log (loop v w s)) =
   tcp_writes (tcp_log s) @ concat (map (broadcast (clients (cleanup s))) (chunks (rx s)))"
  using cleanup_other[of s]
  by (simp add: loop_def write_tcp_log read_tcp_log tcp_writes_append tcp_writes_broadcasts)

lemma loop_registry:
  "clients (loop v w s) = clients (cleanup s) \<and> next_addr (loop v w s) = next_addr s"
  by (simp add: loop_def write_frame read_frame) (simp add: cleanup_def split: prod.splits)

text \<open>
  C5: in every tick, the writes made on client connections are, for each chunk read in the
  read phase in turn, one write of that chunk to each client left in the registry by the
  tick's cleanup phase, and nothing else; and those clients are exactly the clients whose
  disconnected flag was false at the start of the cleanup phase.
\<close>

theorem C5_broadcast_to_live_clients:
  "tcp_writes (tcp_log (loop v w s)) =
     tcp_writes (tcp_log s) @ concat (map (broadcast (clients (cleanup s))) (chunks (rx s))) \<and>
   mset (clients (cleanup s)) = mset (filter (\<lambda>c. \<not> disconnected c) (clients s))"
  using loop_writes[of v w s] cleanup_clients[of s] by simp

section \<open>The disconnected flag over a run\<close>

lemma find_append_if:
  "find P (xs @ ys) = (case find P xs of None \<Rightarrow> find P ys | Some x \<Rightarrow> Some x)"
  by (induction xs) auto

lemma find_client_set_disconnected:
  "find_client a (set_disconnected t s) =
   map_option (\<lambda>c. if addr c = t then c\<lparr>disconnected := True\<rparr> else c) (find_client a s)"
proof -
  have "find (\<lambda>c. addr c = a) (map (\<lambda>c. if addr c = t then c\<lparr>disconnected := True\<rparr> else c) cs) =
        map_option (\<lambda>c. if addr c = t then c\<lparr>disconnected := True\<rparr> else c) (find (\<lambda>c. addr c = a) cs)"
    for cs :: "client list"
    by (induction cs) auto
  then show ?thesis by (simp add: find_client_def set_disconnected_def)
qed

lemma find_client_callback:
  "find_client a s = Some c \<Longrightarrow> find_client a (set_disconnected a s) = Some (c\<lparr>disconnected := True\<rparr>)"
proof -
  assume a: "find_client a s = Some c"
  then have "addr c = a" by (auto simp: find_client_def find_Some_iff)
  with a show ?thesis by (simp add: find_client_set_disconnected)
qed

lemma distinct_map_part:
  assumes "mset f + mset b = mset xs" and "distinct (map g xs)"
  shows "distinct (map g f)"
proof -
  from assms(1) have "mset (map g (f @ b)) = mset (map g xs)" by (metis mset_append mset_map)
  then have "distinct (map g (f @ b)) = distinct (map g xs)" by (rule mset_eq_imp_distinct_iff)
  with assms(2) show ?thesis by simp
qed

lemma set_part:
  assumes "mset f + mset b = mset xs"
  shows "set f \<subseteq> set xs"
proof -
  have "set_mset (mset f + mset b) = set_mset (mset xs)" using assms by simp
  then show ?thesis by auto
qed

lemma registry_ok_set_disconnected: "registry_ok s \<Longrightarrow> registry_ok (set_disconnected a s)"
proof -
  assume ok: "registry_ok s"
  have m: "map addr (clients (set_disconnected a s)) = map addr (clients s)"
    by (simp add: set_disconnected_def o_def if_distrib cong: if_cong)
  have "list_all (\<lambda>c. addr c < next_addr s) (clients s) =
        list_all (\<lambda>n. n < next_addr s) (map addr (clients s))"
    by (simp add: list_all_iff)
  moreover have "list_all (\<lambda>c. addr c < next_addr s) (clients (set_disconnected a s)) =
        list_all (\<lambda>n. n < next_addr s) (map addr (clients (set_disconnected a s)))"
    by (simp add: list_all_iff)
  moreover have "next_addr (set_disconnected a s) = next_addr s"
    by (simp add: set_disconnected_def)
  ultimately show ?thesis using ok m by (simp add: registry_ok_def)
qed

text \<open>Every event keeps the registry well formed.\<close>

lemma registry_ok_step: "registry_ok s \<Longrightarrow> registry_ok (step v w e s)"
proof (cases e)
  case (OnClient tc)
  assume ok: "registry_ok s"
  show ?thesis
  proof (cases tc)
    case None
    with ok OnClient show ?thesis by (simp add: on_client_def)
  next
    case (Some ac)
    from ok have "next_addr s \<notin> addr ` set (clients s)"
      by (auto simp: registry_ok_def list_all_iff)
    with ok OnClient Some show ?thesis
      by (auto simp: registry_ok_def on_client_def new_client_def list_all_iff less_Suc_eq)
  qed
next
  case (OnData a d n)
  assume "registry_ok s"
  with OnData show ?thesis by (auto simp: registry_ok_def on_data_def split: option.splits)
next
  case (OnError a)
  assume "registry_ok s"
  with OnError show ?thesis by (simp add: on_error_def registry_ok_set_disconnected)
next
  case (OnDisconnect a)
  assume "registry_ok s"
  with OnDisconnect show ?thesis by (simp add: on_disconnect_def registry_ok_set_disconnected)
next
  case (OnTimeout a)
  assume "registry_ok s"
  with OnTimeout show ?thesis by (simp add: on_timeout_def registry_ok_set_disconnected)
next
  case Loop
  assume ok: "registry_ok s"
  from cleanup_registry[of s] obtain dead
    where m: "mset (clients (cleanup s)) + mset dead = mset (clients s)" by auto
  from ok have "distinct (map addr (clients s))" by (simp add: registry_ok_def)
  with m have "distinct (map addr (clients (cleanup s)))" by (rule distinct_map_part)
  moreover from set_part[OF m] ok have "list_all (\<lambda>c. addr c < next_addr s) (clients (cleanup s))"
    by (auto simp: registry_ok_def list_all_iff)
  ultimately show ?thesis using Loop by (simp add: registry_ok_def loop_registry)
next
  case Shutdown
  assume "registry_ok s"
  with Shutdown show ?thesis by (simp add: registry_ok_def on_shutdown_def)
qed

lemma registry_ok_init: "registry_ok server_init"
  by (simp add: registry_ok_def server_init_def)

lemma registry_ok_run: "registry_ok s \<Longrightarrow> registry_ok (run v w es s)"
  by (induction es arbitrary: s) (simp_all add: registry_ok_step)

lemma next_addr_step: "next_addr s \<le> next_addr (step v w e s)"
  by (cases e) (auto simp: on_client_def on_data_def on_error_def on_disconnect_def on_timeout_def
      set_disconnected_def loop_registry on_shutdown_def split: option.splits)

lemma dead_or_gone_set_disconnected:
  "dead_or_gone a s \<Longrightarrow> dead_or_gone a (set_disconnected t s)"
  by (auto simp: dead_or_gone_def find_client_set_disconnected split: option.splits)

text \<open>No event brings a dead or evicted client back to life.\<close>

lemma dead_or_gone_step:
  assumes ok: "registry_ok s" and lt: "a < next_addr s" and d: "dead_or_gone a s"
  shows "dead_or_gone a (step v w e s)"
proof (cases e)
  case (OnClient tc)
  show ?thesis
  proof (cases tc)
    case None
    with d OnClient show ?thesis by (simp add: on_client_def)
  next
    case (Some ac)
    with d lt OnClient show ?thesis
      by (auto simp: dead_or_gone_def find_client_def on_client_def new_client_def find_append_if
          split: option.splits)
  qed
next
  case (OnData t dt n)
  have "find_client a (on_data dt n s) = find_client a s"
    by (simp add: find_client_def on_data_def split: option.splits)
  with d OnData show ?thesis by (simp add: dead_or_gone_def)
next
  case (OnError t)
  with d show ?thesis by (simp add: on_error_def dead_or_gone_set_disconnected)
next
  case (OnDisconnect t)
  with d show ?thesis by (simp add: on_disconnect_def dead_or_gone_set_disconnected)
next
  case (OnTimeout t)
  with d show ?thesis by (simp add: on_timeout_def dead_or_gone_set_disconnected)
next
  case Loop
  from cleanup_registry[of s] obtain dead
    where m: "mset (clients (cleanup s)) + mset dead = mset (clients s)"
      and live: "\<forall>c \<in> set (clients (cleanup s)). \<not> disconnected c" by auto
  have "find_client a (loop v w s) = None"
  proof (rule ccontr)
    assume "find_client a (loop v w s) \<noteq> None"
    then obtain c' where c': "find (\<lambda>c. addr c = a) (clients (cleanup s)) = Some c'"
      by (auto simp: find_client_def loop_registry)
    then have in': "c' \<in> set (clients (cleanup s))" and a': "addr c' = a"
      by (auto simp: find_Some_iff)
    from in' live have nd: "\<not> disconnected c'" by simp
    from in' set_part[OF m] have ins: "c' \<in> set (clients s)" by auto
    with a' obtain c where c: "find (\<lambda>c. addr c = a) (clients s) = Some c"
      by (cases "find (\<lambda>c. addr c = a) (clients s)") (auto simp: find_None_iff)
    then have inc: "c \<in> set (clients s)" and ac: "addr c = a"
      by (auto simp: find_Some_iff)
    from d c have dc: "disconnected c" by (simp add: dead_or_gone_def find_client_def)
    from ok have "inj_on addr (set (clients s))" by (simp add: registry_ok_def distinct_map)
    with ins inc a' ac have "c = c'" by (auto dest: inj_onD)
    with nd dc show False by simp
  qed
  with Loop show ?thesis by (simp add: dead_or_gone_def)
next
  case Shutdown
  with d show ?thesis by (simp add: dead_or_gone_def find_client_def on_shutdown_def)
qed

lemma dead_or_gone_run:
  "registry_ok s \<Longrightarrow> a < next_addr s \<Longrightarrow> dead_or_gone a s \<Longrightarrow> dead_or_gone a (run v w es s)"
proof (induction es arbitrary: s)
  case Nil
  then show ?case by simp
next
  case (Cons e es)
  have "registry_ok (step v w e s)" using Cons.prems(1) by (rule registry_ok_step)
  moreover have "a < next_addr (step v w e s)"
    using Cons.prems(2) next_addr_step[of s v w e] by simp
  moreover have "dead_or_gone a (step v w e s)"
    using Cons.prems by (rule dead_or_gone_step)
  ultimately show ?case using Cons.IH by simp
qed

text \<open>
  C6: the disconnected flag of a client is monotonic. It is false at construction; each
  of the on-error, on-disconnect and on-timeout callbacks of a client sets it to true,
  whatever it was; and once it is true, no run of events (accepts, callbacks of any
  client, ticks, shutdown) sets it back to false: after the run the client is either
  still flagged or has been evicted.
\<close>

theorem C6_disconnected_monotonic:
  "disconnected (new_client a ac) = False \<and>
   (find_client a s = Some c \<longrightarrow>
      find_client a (on_error a s) = Some (c\<lparr>disconnected := True\<rparr>) \<and>
      find_client a (on_disconnect a s) = Some (c\<lparr>disconnected := True\<rparr>) \<and>
      find_client a (on_timeout a s) = Some (c\<lparr>disconnected := True\<rparr>)) \<and>
   (registry_ok s \<and> find_client a s = Some c \<and> disconnected c \<longrightarrow>
      (case find_client a (run v w es s) of None \<Rightarrow> True | Some c' \<Rightarrow> disconnected c'))"
proof (intro conjI impI)
  show "disconnected (new_client a ac) = False" by (simp add: new_client_def)
next
  assume "find_client a s = Some c"
  then show "find_client a (on_error a s) = Some (c\<lparr>disconnected := True\<rparr>)"
    unfolding on_error_def by (rule find_client_callback)
next
  assume "find_client a s = Some c"
  then show "find_client a (on_disconnect a s) = Some (c\<lparr>disconnected := True\<rparr>)"
    unfolding on_disconnect_def by (rule find_client_callback)
next
  assume "find_client a s = Some c"
  then show "find_client a (on_timeout a s) = Some (c\<lparr>disconnected := True\<rparr>)"
    unfolding on_timeout_def by (rule find_client_callback)
next
  assume h: "registry_ok s \<and> find_client a s = Some c \<and> disconnected c"
  then have "c \<in> set (clients s)" and "addr c = a"
    by (auto simp: find_client_def find_Some_iff)
  with h have lt: "a < next_addr s" by (auto simp: registry_ok_def list_all_iff)
  from h have "dead_or_gone a s" by (simp add: dead_or_gone_def)
  with h lt have "dead_or_gone a (run v w es s)" by (intro dead_or_gone_run) simp_all
  then show "case find_client a (run v w es s) of None \<Rightarrow> True | Some c' \<Rightarrow> disconnected c'"
    by (simp add: dead_or_gone_def)
qed

theorem C6_disconnected_monotonic_witness:
  "disconnected (new_client 0 example_peer) = False \<and>
   find_client 0 (on_client (Some example_peer) server_init) = Some (new_client 0 example_peer) \<and>
   find_client 0 (on_error 0 (on_client (Some example_peer) server_init)) =
     Some ((new_client 0 example_peer)\<lparr>disconnected := True\<rparr>) \<and>
   registry_ok (on_error 0 (on_client (Some example_peer) server_init)) \<and>
   disconnected ((new_client 0 example_peer)\<lparr>disconnected := True\<rparr>) \<and>
   find_client 0
     (run True (\<lambda>n. n) [OnData 0 (Some [1, 2]) 2, OnClient (Some example_peer), OnDisconnect 1, Shutdown]
        (on_error 0 (on_client (Some example_peer) server_init))) =
     Some ((new_client 0 example_peer)\<lparr>disconnected := True\<rparr>) \<and>
   find_client 0
     (run True (\<lambda>n. n) [OnClient (Some example_peer), Loop]
        (on_error 0 (on_client (Some example_peer) server_init))) = None"
proof -
  have f0: "find_client 0 (on_client (Some example_peer) server_init) = Some (new_client 0 example_peer)"
    by (simp add: find_client_def on_client_def server_init_def new_client_def)
  note a = C6_disconnected_monotonic[of 0 example_peer "on_client (Some example_peer) server_init"
      "new_client 0 example_peer"]
  from a f0 have f1: "find_client 0 (on_error 0 (on_client (Some example_peer) server_init)) =
      Some ((new_client 0 example_peer)\<lparr>disconnected := True\<rparr>)" by simp
  have ok: "registry_ok (on_error 0 (on_client (Some example_peer) server_init))"
    by (simp add: registry_ok_def on_error_def set_disconnected_def on_client_def server_init_def
        new_client_def)
  note b = C6_disconnected_monotonic[of 0 example_peer
      "on_error 0 (on_client (Some example_peer) server_init)"
      "(new_client 0 example_peer)\<lparr>disconnected := True\<rparr>" True "\<lambda>n. n"
      "[OnData 0 (Some [1, 2]) 2, OnClient (Some example_peer), OnDisconnect 1, Shutdown]"]
  have r1: "find_client 0
     (run True (\<lambda>n. n) [OnData 0 (Some [1, 2]) 2, OnClient (Some example_peer), OnDisconnect 1, Shutdown]
        (on_error 0 (on_client (Some example_peer) server_init))) =
     Some ((new_client 0 example_peer)\<lparr>disconnected := True\<rparr>)"
    by code_simp
  have r2: "find_client 0
     (run True (\<lambda>n. n) [OnClient (Some example_peer), Loop]
        (on_error 0 (on_client (Some example_peer) server_init))) = None"
    by code_simp
  from a b f0 f1 ok r1 r2 show ?thesis by simp
qed

section \<open>The data callback, admission and shutdown\<close>

text \<open>
  C7: for every invocation of a client's on-data callback: if the payload length is zero
  or the payload pointer is null, the component's state, the shared receive buffer with
  it, is unchanged; otherwise the \<open>len\<close> payload bytes are appended in order to the end of
  the shared receive buffer, and nothing else is modified.
\<close>

theorem C7_on_data:
  "(len = 0 \<or> data = None \<longrightarrow> on_data data len s = s) \<and>
   (len \<noteq> 0 \<and> data = Some buf \<longrightarrow>
      on_data data len s = s\<lparr>recv_buf := recv_buf s @ take len buf\<rparr>)"
  by (auto simp: on_data_def split: option.splits)

theorem C7_on_data_witness:
  "on_data None 3 (server_init\<lparr>recv_buf := [9]\<rparr>) = server_init\<lparr>recv_buf := [9]\<rparr> \<and>
   on_data (Some [1, 2, 3]) 0 (server_init\<lparr>recv_buf := [9]\<rparr>) = server_init\<lparr>recv_buf := [9]\<rparr> \<and>
   on_data (Some [1, 2, 3]) 3 (server_init\<lparr>recv_buf := [9]\<rparr>) = server_init\<lparr>recv_buf := [9, 1, 2, 3]\<rparr>"
  using C7_on_data[of 3 None "server_init\<lparr>recv_buf := [9]\<rparr>"]
        C7_on_data[of 0 "Some [1, 2, 3]" "server_init\<lparr>recv_buf := [9]\<rparr>"]
        C7_on_data[of 3 "Some [1, 2, 3]" "server_init\<lparr>recv_buf := [9]\<rparr>" "[1, 2, 3]"]
  by simp

text \<open>
  C8: for every registry state, the connection-accepted callback with a null connection
  leaves the component unchanged; with a connection it appends exactly one new client,
  built from that connection, to the end of the registry.
\<close>

theorem C8_on_client:
  "on_client None s = s \<and>
   clients (on_client (Some ac) s) = clients s @ [new_client (next_addr s) ac] \<and>
   length (clients (on_client (Some ac) s)) = Suc (length (clients s))"
  by (simp add: on_client_def)

text \<open>
  C10: \<open>on_shutdown\<close> calls \<^verbatim>\<open>close(true)\<close> on the connection of each client, in registry
  order, and leaves the registry as it was: the same clients in the same order, with the
  same identifiers and disconnected flags.
\<close>

theorem C10_on_shutdown_registry:
  "clients (on_shutdown s) = clients s \<and>
   tcp_log (on_shutdown s) = tcp_log s @ map (\<lambda>c. TcpClose (tcp_client c) True) (clients s)"
  by (simp add: on_shutdown_def)

end
